theory Spec2Isabelle
  imports Complex_Main "HOL-Library.Multiset"
begin

section \<open>Text primitives of Python used by bioasq2squad.py\<close>

text \<open>
  Strings are lists of characters.  The model covers ASCII text: a character is a word
  character (\<open>\w\<close>) when it is a digit, a letter or the underscore, white space
  (\<open>\s\<close>, \<open>str.strip\<close>) when its code is 9..13, 28..31 or 32, and \<open>str.lower\<close> maps
  \<open>A..Z\<close> to \<open>a..z\<close>.  Characters with a code above 127 are treated as neither word
  characters nor white space and are left alone by \<open>lower\<close>.
\<close>

definition is_word_char :: "char \<Rightarrow> bool" where
  "is_word_char c =
     (let n = (of_char c :: nat)
      in (48 \<le> n \<and> n \<le> 57) \<or> (65 \<le> n \<and> n \<le> 90) \<or> n = 95 \<or> (97 \<le> n \<and> n \<le> 122))"

definition is_space_char :: "char \<Rightarrow> bool" where
  "is_space_char c =
     (let n = (of_char c :: nat)
      in (9 \<le> n \<and> n \<le> 13) \<or> (28 \<le> n \<and> n \<le> 31) \<or> n = 32)"

definition lower_char :: "char \<Rightarrow> char" where
  "lower_char c =
     (let n = (of_char c :: nat)
      in if 65 \<le> n \<and> n \<le> 90 then char_of (n + 32) else c)"

definition lower :: "string \<Rightarrow> string" where
  "lower s = map lower_char s"

definition strip :: "string \<Rightarrow> string" where
  "strip s = rev (dropWhile is_space_char (rev (dropWhile is_space_char s)))"

definition startswith :: "string \<Rightarrow> string \<Rightarrow> bool" where
  "startswith s p = (take (length p) s = p)"

text \<open>\<open>sub in s\<close> on strings: \<open>sub\<close> occurs at some position of \<open>s\<close>.\<close>

fun contains :: "string \<Rightarrow> string \<Rightarrow> bool" where
  "contains [] sub = (sub = [])"
| "contains (c # cs) sub = (take (length sub) (c # cs) = sub \<or> contains cs sub)"

text \<open>\<open>sep.join(xs)\<close>.\<close>

fun join :: "string \<Rightarrow> string list \<Rightarrow> string" where
  "join sep [] = []"
| "join sep [x] = x"
| "join sep (x # y # ys) = x @ sep @ join sep (y # ys)"

subsection \<open>Regular expression search\<close>

text \<open>
  A compiled pattern is modelled by its matcher: \<open>m s pos\<close> is the end of the match of the
  pattern that starts at position \<open>pos\<close> of \<open>s\<close>, if there is one.  \<open>re.finditer\<close> scans
  from left to right, reports the leftmost match and resumes at its end, so the matches
  it yields do not overlap.  None of the patterns of this program matches the empty
  string.
\<close>

function finditer :: "(string \<Rightarrow> nat \<Rightarrow> nat option) \<Rightarrow> string \<Rightarrow> nat \<Rightarrow> (nat \<times> nat) list" where
  "finditer m s pos =
     (if length s < pos then []
      else case m s pos of
             None \<Rightarrow> finditer m s (Suc pos)
           | Some e \<Rightarrow> (pos, e) # finditer m s (max e (Suc pos)))"
  by pat_completeness auto
termination
  by (relation "measure (\<lambda>(m, s, pos). Suc (length s) - pos)") auto

declare finditer.simps [simp del]

definition literal_at :: "string \<Rightarrow> string \<Rightarrow> nat \<Rightarrow> bool" where
  "literal_at lit s i = (take (length lit) (drop i s) = lit)"

definition nonword_at :: "string \<Rightarrow> nat \<Rightarrow> bool" where
  "nonword_at s i = (i < length s \<and> \<not> is_word_char (s ! i))"

text \<open>\<open>$\<close> without \<open>re.MULTILINE\<close>: the end of the string, or just before a newline that
  ends the string.\<close>

definition at_end :: "string \<Rightarrow> nat \<Rightarrow> bool" where
  "at_end s i = (i = length s \<or> (Suc i = length s \<and> s ! i = CHR 0x0A))"

text \<open>The three patterns of \<open>find_all_substring_positions\<close>; \<open>re.escape\<close> makes the
  substring match itself, character by character.\<close>

definition match_interior :: "string \<Rightarrow> string \<Rightarrow> nat \<Rightarrow> nat option" where
  "match_interior lit s i =
     (if nonword_at s i \<and> literal_at lit s (Suc i) \<and> nonword_at s (Suc i + length lit)
      then Some (i + length lit + 2) else None)"

definition match_leading :: "string \<Rightarrow> string \<Rightarrow> nat \<Rightarrow> nat option" where
  "match_leading lit s i =
     (if i = 0 \<and> literal_at lit s 0 \<and> nonword_at s (length lit)
      then Some (Suc (length lit)) else None)"

definition match_trailing :: "string \<Rightarrow> string \<Rightarrow> nat \<Rightarrow> nat option" where
  "match_trailing lit s i =
     (if nonword_at s i \<and> literal_at lit s (Suc i) \<and> at_end s (Suc i + length lit)
      then Some (Suc i + length lit) else None)"

text \<open>\<open>[^\w]$\<close>, the pattern of \<open>clean_answer\<close>.\<close>

definition match_final_nonword :: "string \<Rightarrow> nat \<Rightarrow> nat option" where
  "match_final_nonword s i =
     (if nonword_at s i \<and> at_end s (Suc i) then Some (Suc i) else None)"

text \<open>\<open>\w+|[^\w\s]\<close>, the pattern of the tokenizer.\<close>

definition match_token :: "string \<Rightarrow> nat \<Rightarrow> nat option" where
  "match_token s i =
     (if i < length s \<and> is_word_char (s ! i)
        then Some (i + length (takeWhile is_word_char (drop i s)))
      else if i < length s \<and> \<not> is_space_char (s ! i) then Some (Suc i)
      else None)"

text \<open>\<open>TOKENIZER.tokenize\<close>: \<open>RegexpTokenizer\<close> without gaps returns
  \<open>re.findall\<close> of its pattern.\<close>

definition tokenize :: "string \<Rightarrow> string list" where
  "tokenize s = map (\<lambda>(b, e). take (e - b) (drop b s)) (finditer match_token s 0)"

section \<open>Answer cleaning and span location\<close>

definition clean_answer :: "string \<Rightarrow> string" where
  "clean_answer answer =
     (let answer = lower (strip answer);
          answer = (if startswith answer ''the '' then drop 4 answer else answer);
          answer = (if finditer match_final_nonword answer 0 \<noteq> [] then butlast answer
                    else answer)
      in answer)"

definition find_all_substring_positions :: "string \<Rightarrow> string \<Rightarrow> nat list" where
  "find_all_substring_positions string substring =
     (if length substring = 0 then []
      else concat (map (\<lambda>m. map (\<lambda>(b, e). b + 1) (finditer m string 0))
                    [match_interior substring, match_leading substring,
                     match_trailing substring]))"

section \<open>Data model\<close>

datatype error = IndexError | AssertionError | ValueError

text \<open>An element of \<open>exact_answer\<close> is a string or a list of alternative phrasings;
  \<open>exact_answer\<close> itself is a list of such elements or, for some factoid questions, one
  string (iterating over it yields its characters, each a string of length one).\<close>

datatype answer_slot = Plain string | Alternatives "string list"

datatype exact_answer_value = AnswerString string | AnswerList "answer_slot list"

fun slots_of :: "exact_answer_value \<Rightarrow> answer_slot list" where
  "slots_of (AnswerString s) = map (\<lambda>c. Plain [c]) s"
| "slots_of (AnswerList slots) = slots"

record snippet =
  snippet_text :: string

record question =
  qid :: string
  qtype :: string
  body :: string
  exact_answer :: exact_answer_value
  snippets :: "snippet list"

record bioasq_data =
  questions :: "question list"

record answer_span =
  answer_start :: nat
  span_text :: string

record qa =
  qa_id :: string
  qa_question :: string
  answers :: "answer_span list"
  original_answers :: exact_answer_value
  question_type :: string

record paragraph_record =
  p_context :: string
  qas :: "qa list"

record dataset =
  title :: string
  paragraphs :: "paragraph_record list"

record result_object =
  version :: string
  datasets :: "dataset list"

definition TRAIN_FRACTION :: real where
  "TRAIN_FRACTION = 0.8"

definition CONTEXT_TOKEN_LIMIT :: nat where
  "CONTEXT_TOKEN_LIMIT = 700"

section \<open>Question filter\<close>

text \<open>\<open>logging.warning\<close> is modelled by the list of messages a function emits, in order.\<close>

fun filter_questions :: "question list \<Rightarrow> question list \<times> string list" where
  "filter_questions [] = ([], [])"
| "filter_questions (q # rest) =
     (let (result, warnings) = filter_questions rest
      in if qtype q \<notin> set [''factoid'', ''list''] then (result, warnings)
         else if length (snippets q) = 0
           then (result, (''Skipping question '' @ qid q @ ''. No snippets.'') # warnings)
         else (q # result, warnings))"

section \<open>Context assembly\<close>

text \<open>The loop of \<open>get_context\<close> over the snippet texts, with its local variables
  \<open>snippets_set\<close>, \<open>num_tokens\<close> and \<open>filtered_tickets\<close>; the result is
  \<open>filtered_tickets\<close> and \<open>did_truncate\<close>.\<close>

fun get_context_loop ::
  "string list \<Rightarrow> string set \<Rightarrow> nat \<Rightarrow> string list \<Rightarrow> string list \<times> bool" where
  "get_context_loop [] snippets_set num_tokens filtered_tickets = (filtered_tickets, False)"
| "get_context_loop (s # rest) snippets_set num_tokens filtered_tickets =
     (if s \<in> snippets_set
        then get_context_loop rest snippets_set num_tokens filtered_tickets
      else
        (let num_tokens = num_tokens + length (tokenize s)
         in if CONTEXT_TOKEN_LIMIT < num_tokens then (filtered_tickets, True)
            else get_context_loop rest (insert s snippets_set) num_tokens
                   (filtered_tickets @ [s])))"

text \<open>\<open>[snippet["text"] for snippet in question["snippets"]]\<close>.\<close>

definition snippet_texts :: "question \<Rightarrow> string list" where
  "snippet_texts q = map snippet_text (snippets q)"

definition get_context :: "question \<Rightarrow> string \<times> bool" where
  "get_context q =
     (let (filtered_tickets, did_truncate) = get_context_loop (snippet_texts q) {} 0 []
      in (join '' '' filtered_tickets, did_truncate))"

text \<open>The cumulative token count of the first \<open>k\<close> snippets of a question.\<close>

definition tokens_up_to :: "question \<Rightarrow> nat \<Rightarrow> nat" where
  "tokens_up_to q k = sum_list (map (\<lambda>s. length (tokenize s)) (take k (snippet_texts q)))"

section \<open>Answer resolution\<close>

text \<open>\<open>find_best_answer\<close> is local to \<open>get_answers\<close> and reads the lowercased context;
  \<open>answers[0]\<close> raises \<open>IndexError\<close> on an empty list.\<close>

definition find_best_answer :: "string \<Rightarrow> string list \<Rightarrow> error + string" where
  "find_best_answer ctx alts =
     (case find (\<lambda>answer. contains ctx (lower answer) \<and> length answer \<noteq> 0) alts of
        Some answer \<Rightarrow> Inr answer
      | None \<Rightarrow> (case alts of [] \<Rightarrow> Inl IndexError | a # _ \<Rightarrow> Inr a))"

text \<open>The list comprehension that picks one string per element of \<open>exact_answer\<close>; it
  stops at the first element that raises.\<close>

fun select_answers :: "string \<Rightarrow> answer_slot list \<Rightarrow> error + string list" where
  "select_answers ctx [] = Inr []"
| "select_answers ctx (a # rest) =
     (case (case a of Plain s \<Rightarrow> Inr s | Alternatives alts \<Rightarrow> find_best_answer ctx alts) of
        Inl e \<Rightarrow> Inl e
      | Inr x \<Rightarrow> (case select_answers ctx rest of Inl e \<Rightarrow> Inl e | Inr xs \<Rightarrow> Inr (x # xs)))"

definition answer_objects_of :: "string \<Rightarrow> string list \<Rightarrow> answer_span list" where
  "answer_objects_of ctx selected =
     concat (map (\<lambda>answer.
                    let answer = clean_answer answer
                    in map (\<lambda>start_position.
                              \<lparr>answer_start = start_position, span_text = answer\<rparr>)
                           (find_all_substring_positions ctx answer))
                 selected)"

text \<open>\<open>get_answers\<close> returns the answer objects, or \<open>None\<close> together with the warning it
  logs, or raises.\<close>

definition get_answers ::
  "question \<Rightarrow> string \<Rightarrow> error + (answer_span list option \<times> string list)" where
  "get_answers q ctx =
     (let ctx = lower ctx
      in case select_answers ctx (slots_of (exact_answer q)) of
           Inl e \<Rightarrow> Inl e
         | Inr selected \<Rightarrow>
             if length selected = 0 then Inl AssertionError
             else
               (let answer_objects = answer_objects_of ctx selected
                in if length answer_objects = 0
                     then Inr (None, [''Skipping question '' @ qid q @ ''. No matching answer.''])
                   else Inr (Some answer_objects, [])))"

section \<open>Paragraph builder\<close>

definition build_paragraph ::
  "question \<Rightarrow> error + ((paragraph_record \<times> bool) option \<times> string list)" where
  "build_paragraph q =
     (let (ctx, context_truncated) = get_context q
      in case get_answers q ctx of
           Inl e \<Rightarrow> Inl e
         | Inr (None, warnings) \<Rightarrow> Inr (None, warnings)
         | Inr (Some answer_objects, warnings) \<Rightarrow>
             Inr (Some (\<lparr>p_context = lower ctx,
                          qas = [\<lparr>qa_id = qid q,
                                   qa_question = lower (body q),
                                   answers = answer_objects,
                                   original_answers = exact_answer q,
                                   question_type = qtype q\<rparr>]\<rparr>,
                        context_truncated),
                  warnings))"

text \<open>The list comprehension over the filtered questions; the first exception ends it.\<close>

fun build_all ::
  "question list \<Rightarrow> error + ((paragraph_record \<times> bool) option list \<times> string list)" where
  "build_all [] = Inr ([], [])"
| "build_all (q # rest) =
     (case build_paragraph q of
        Inl e \<Rightarrow> Inl e
      | Inr (r, warnings) \<Rightarrow>
          (case build_all rest of
             Inl e \<Rightarrow> Inl e
           | Inr (rs, warnings') \<Rightarrow> Inr (r # rs, warnings @ warnings')))"

text \<open>\<open>paragraphs, context_truncated = zip(*paragraphs)\<close> raises \<open>ValueError\<close> when no
  paragraph is left: \<open>zip()\<close> of nothing yields nothing to unpack.\<close>

definition build_paragraphs ::
  "bioasq_data \<Rightarrow> error + ((paragraph_record list \<times> nat) \<times> string list)" where
  "build_paragraphs d =
     (let (filtered, warnings) = filter_questions (questions d)
      in case build_all filtered of
           Inl e \<Rightarrow> Inl e
         | Inr (results, warnings') \<Rightarrow>
             (let kept = concat (map (\<lambda>r. case r of None \<Rightarrow> [] | Some p \<Rightarrow> [p]) results)
              in if kept = [] then Inl ValueError
                 else Inr ((map fst kept, length (filter (\<lambda>t. t) (map snd kept))),
                           warnings @ warnings')))"

section \<open>Splitter\<close>

text \<open>
  numpy's global generator is not part of the repository.  It is modelled by explicit
  state passing: a generator state of type \<open>'g\<close>, \<open>seed\<close> for \<open>np.random.seed\<close>,
  \<open>choice g n k\<close> for \<open>np.random.choice(n, k, replace=False)\<close> and \<open>permutation g n\<close>
  for \<open>np.random.permutation(n)\<close>, each draw returning the next state.
\<close>

record 'g np_random =
  seed :: "nat \<Rightarrow> 'g"
  choice :: "'g \<Rightarrow> nat \<Rightarrow> nat \<Rightarrow> nat list \<times> 'g"
  permutation :: "'g \<Rightarrow> nat \<Rightarrow> nat list \<times> 'g"

text \<open>\<open>int(TRAIN_FRACTION * dataset_size)\<close>.  The product is taken over the reals: the
  binary double nearest to 0.8 exceeds it by a relative \<open>2^-54\<close>, which the rounding of
  the product absorbs for every list length below \<open>2^50\<close>.\<close>

definition train_size_of :: "nat \<Rightarrow> nat" where
  "train_size_of dataset_size = nat \<lfloor>TRAIN_FRACTION * real dataset_size\<rfloor>"

text \<open>The loop over the permutation; \<open>paragraphs[i]\<close> raises \<open>IndexError\<close> out of range.\<close>

fun split_loop ::
  "'a list \<Rightarrow> nat list \<Rightarrow> nat list \<Rightarrow> 'a list \<Rightarrow> 'a list \<Rightarrow> error + ('a list \<times> 'a list)" where
  "split_loop ps train_indices [] train_paragraphs dev_paragraphs =
     Inr (train_paragraphs, dev_paragraphs)"
| "split_loop ps train_indices (i # rest) train_paragraphs dev_paragraphs =
     (if i \<in> set train_indices
        then (if i < length ps
                then split_loop ps train_indices rest (train_paragraphs @ [ps ! i]) dev_paragraphs
              else Inl IndexError)
      else (if i < length ps
              then split_loop ps train_indices rest train_paragraphs (dev_paragraphs @ [ps ! i])
            else Inl IndexError))"

definition split_paragraphs ::
  "'g np_random \<Rightarrow> 'g \<Rightarrow> 'a list \<Rightarrow> error + (('a list \<times> 'a list) \<times> 'g)" where
  "split_paragraphs R g ps =
     (let dataset_size = length ps;
          train_size = train_size_of dataset_size;
          (train_indices, g1) = choice R g dataset_size train_size;
          (perm, g2) = permutation R g1 dataset_size
      in case split_loop ps train_indices perm [] [] of
           Inl e \<Rightarrow> Inl e
         | Inr r \<Rightarrow> Inr (r, g2))"

section \<open>Writer and reporter\<close>

definition build_result_object :: "string \<Rightarrow> paragraph_record list \<Rightarrow> result_object" where
  "build_result_object name ps =
     \<lparr>version = ''1.0'', datasets = [\<lparr>title = name, paragraphs = ps\<rparr>]\<rparr>"

record report =
  num_extracted :: nat
  num_train :: nat
  num_dev :: nat
  max_context_len :: nat
  contexts_truncated :: nat
  num_factoid :: nat
  num_factoid_original :: nat
  num_list :: nat
  num_list_original :: nat

record run_output =
  train_json :: result_object
  dev_json :: result_object
  printed :: report
  logged :: "string list"

text \<open>\<open>max\<close> of an empty list raises \<open>ValueError\<close>.\<close>

definition max_of :: "nat list \<Rightarrow> error + nat" where
  "max_of xs = (case xs of [] \<Rightarrow> Inl ValueError | x # rest \<Rightarrow> Inr (fold max rest x))"

text \<open>\<open>convert_to_squad\<close> without the file system: the two documents it writes, the
  numbers it prints and the warnings logged on the way.\<close>

definition convert_to_squad ::
  "'g np_random \<Rightarrow> 'g \<Rightarrow> string \<Rightarrow> bioasq_data \<Rightarrow> error + run_output" where
  "convert_to_squad R g bioasq_file_path d =
     (case build_paragraphs d of
        Inl e \<Rightarrow> Inl e
      | Inr ((ps, truncated), warnings) \<Rightarrow>
          (case split_paragraphs R g ps of
             Inl e \<Rightarrow> Inl e
           | Inr ((train_paragraphs, dev_paragraphs), g') \<Rightarrow>
               (case max_of (map (\<lambda>p. length (tokenize (p_context p))) ps) of
                  Inl e \<Rightarrow> Inl e
                | Inr max_len \<Rightarrow>
                    Inr \<lparr>train_json =
                           build_result_object (bioasq_file_path @ '' - train'') train_paragraphs,
                         dev_json =
                           build_result_object (bioasq_file_path @ '' - dev'') dev_paragraphs,
                         printed =
                           \<lparr>num_extracted = length ps,
                            num_train = length train_paragraphs,
                            num_dev = length dev_paragraphs,
                            max_context_len = max_len,
                            contexts_truncated = truncated,
                            num_factoid = length (filter (\<lambda>p. question_type (hd (qas p)) = ''factoid'') ps),
                            num_factoid_original =
                              length (filter (\<lambda>q. qtype q = ''factoid'') (questions d)),
                            num_list = length (filter (\<lambda>p. question_type (hd (qas p)) = ''list'') ps),
                            num_list_original =
                              length (filter (\<lambda>q. qtype q = ''list'') (questions d))\<rparr>,
                         logged = warnings\<rparr>)))"

text \<open>The paragraph records of the two documents of a run.\<close>

definition emitted_paragraphs :: "run_output \<Rightarrow> paragraph_record list" where
  "emitted_paragraphs out =
     concat (map paragraphs (datasets (train_json out)))
     @ concat (map paragraphs (datasets (dev_json out)))"

text \<open>The module seeds numpy's generator with 1234 when it is loaded, once per run.\<close>

definition run :: "'g np_random \<Rightarrow> string \<Rightarrow> bioasq_data \<Rightarrow> error + run_output" where
  "run R bioasq_file_path d = convert_to_squad R (seed R 1234) bioasq_file_path d"

section \<open>The cleaning rule in the words of the specification\<close>

text \<open>Trimming, written without the functions of the code model: drop the white space
  at the front, then cut the string where only white space follows.\<close>

fun trim_leading :: "string \<Rightarrow> string" where
  "trim_leading [] = []"
| "trim_leading (c # cs) = (if is_space_char c then trim_leading cs else c # cs)"

fun trim_trailing :: "string \<Rightarrow> string" where
  "trim_trailing [] = []"
| "trim_trailing (c # cs) =
     (if list_all is_space_char (c # cs) then [] else c # trim_trailing cs)"

definition trim_spec :: "string \<Rightarrow> string" where
  "trim_spec s = trim_trailing (trim_leading s)"

text \<open>Lowercase and trim white space; strip a leading \<open>"the "\<close>; strip the final
  character when it is not a word character.\<close>

definition clean_answer_spec :: "string \<Rightarrow> string" where
  "clean_answer_spec answer =
     (let s = trim_spec (lower answer);
          s = (if take 4 s = ''the '' then drop 4 s else s)
      in if s \<noteq> [] \<and> \<not> is_word_char (last s) then butlast s else s)"

section \<open>Example inputs\<close>

text \<open>A generator that satisfies numpy's contract (the sample is without replacement,
  the permutation is one) and is easy to follow by hand.\<close>

definition example_rng :: "nat np_random" where
  "example_rng =
     \<lparr>seed = (\<lambda>n. n),
      choice = (\<lambda>g n k. (take k (rev [0..<n]), Suc g)),
      permutation = (\<lambda>g n. (rev [0..<n], Suc g))\<rparr>"

text \<open>The question of the end-to-end scenario.\<close>

definition example_question :: question where
  "example_question =
     \<lparr>qid = ''q1'', qtype = ''factoid'', body = ''What is important?'',
      exact_answer = AnswerList [Plain ''Protein X''],
      snippets = [\<lparr>snippet_text = ''Protein X is important.''\<rparr>]\<rparr>"

text \<open>Its paragraph and the result of a run on it alone, as the code computes them.\<close>

definition example_paragraph :: paragraph_record where
  "example_paragraph =
     \<lparr>p_context = ''protein x is important.'',
      qas = [\<lparr>qa_id = ''q1'', qa_question = ''what is important?'',
              answers = [\<lparr>answer_start = 1, span_text = ''protein x''\<rparr>],
              original_answers = AnswerList [Plain ''Protein X''],
              question_type = ''factoid''\<rparr>]\<rparr>"

definition example_output :: run_output where
  "example_output =
     \<lparr>train_json = build_result_object ''bioasq.json - train'' [],
      dev_json = build_result_object ''bioasq.json - dev'' [example_paragraph],
      printed = \<lparr>num_extracted = 1, num_train = 0, num_dev = 1, max_context_len = 5,
                 contexts_truncated = 0, num_factoid = 1, num_factoid_original = 1,
                 num_list = 0, num_list_original = 0\<rparr>,
      logged = []\<rparr>"

text \<open>The same question with an empty list of alternatives as its second answer, with an
  answer that the context does not contain, and with an unsupported type.\<close>

definition question_with_empty_slot :: question where
  "question_with_empty_slot =
     example_question\<lparr>exact_answer := AnswerList [Plain ''Protein X'', Alternatives []]\<rparr>"

definition question_without_match :: question where
  "question_without_match = example_question\<lparr>exact_answer := AnswerList [Plain ''Enzyme Y'']\<rparr>"

definition yesno_question :: question where
  "yesno_question = example_question\<lparr>qtype := ''yesno''\<rparr>"

text \<open>Questions at the token limit: 699 full stops are 699 tokens.\<close>

definition many_dots :: string where
  "many_dots = replicate 699 CHR ''.''"

definition full_question :: question where
  "full_question =
     example_question\<lparr>snippets := [\<lparr>snippet_text = many_dots\<rparr>, \<lparr>snippet_text = ''x''\<rparr>]\<rparr>"

definition overfull_question :: question where
  "overfull_question =
     example_question\<lparr>snippets := [\<lparr>snippet_text = ''a b''\<rparr>, \<lparr>snippet_text = many_dots\<rparr>,
                                   \<lparr>snippet_text = ''c''\<rparr>]\<rparr>"

section \<open>Span location at the start of the context\<close>

text \<open>
  C1.  End-to-end scenario: one factoid question with \<open>exact_answer = ["Protein X"]\<close> and
  the snippet \<open>"Protein X is important."\<close>.  The paragraph has the context
  \<open>"protein x is important."\<close> and one answer span with the text \<open>"protein x"\<close>, but its
  \<open>answer_start\<close> is 1, not the offset 0 of the answer: the pattern anchored at the start
  of the string has no leading character, and \<open>m.start() + 1\<close> is applied to it as well.
\<close>

theorem end_to_end_answer_start_is_one:
  "build_paragraph example_question =
     Inr (Some (\<lparr>p_context = ''protein x is important.'',
                  qas = [\<lparr>qa_id = ''q1'', qa_question = ''what is important?'',
                          answers = [\<lparr>answer_start = 1, span_text = ''protein x''\<rparr>],
                          original_answers = AnswerList [Plain ''Protein X''],
                          question_type = ''factoid''\<rparr>]\<rparr>,
                False),
          [])"
  by code_simp

text \<open>
  C2.  Span location does not return every whole-word occurrence: a context equal to the
  answer yields no position (each pattern needs a non-word character on one side), an
  occurrence at the start of the context is reported at position 1 instead of 0, and of
  two occurrences that share their separator only the first is found.
\<close>

theorem whole_word_occurrences_missed:
  "find_all_substring_positions ''cell'' ''cell'' = []
   \<and> find_all_substring_positions ''cell divides'' ''cell'' = [1]
   \<and> find_all_substring_positions ''a cell cell b'' ''cell'' = [2]"
  by code_simp

section \<open>A run in which every question is dropped\<close>

text \<open>
  C3.  When no question is left (the input is empty, or its only question has an
  unsupported type), \<open>build_paragraphs\<close> raises \<open>ValueError\<close> and the run ends with
  it, whatever the generator and the path: no train or dev document is produced.
\<close>

theorem all_questions_dropped_aborts:
  "build_paragraphs \<lparr>questions = []\<rparr> = Inl ValueError
   \<and> build_paragraphs \<lparr>questions = [yesno_question]\<rparr> = Inl ValueError
   \<and> run R path \<lparr>questions = [yesno_question]\<rparr> = Inl ValueError"
  by (simp add: run_def convert_to_squad_def build_paragraphs_def yesno_question_def example_question_def)

section \<open>Cleaning\<close>

lemma finditer_nonempty_iff:
  "finditer m s pos \<noteq> [] \<longleftrightarrow> (\<exists>i. pos \<le> i \<and> i \<le> length s \<and> m s i \<noteq> None)"
proof (induction m s pos rule: finditer.induct)
  case (1 m s pos)
  show ?case
  proof (cases "length s < pos")
    case True
    then show ?thesis by (simp add: finditer.simps [of m s pos])
  next
    case False
    show ?thesis
    proof (cases "m s pos")
      case None
      have "finditer m s pos = finditer m s (Suc pos)"
        using False None by (simp add: finditer.simps [of m s pos])
      moreover have "(\<exists>i. Suc pos \<le> i \<and> i \<le> length s \<and> m s i \<noteq> None)
                     \<longleftrightarrow> (\<exists>i. pos \<le> i \<and> i \<le> length s \<and> m s i \<noteq> None)"
        using None by (metis Suc_leD Suc_leI le_neq_implies_less)
      ultimately show ?thesis using "1.IH"(1) [OF False None] by simp
    next
      case (Some e)
      have "finditer m s pos \<noteq> []"
        using False Some by (simp add: finditer.simps [of m s pos])
      moreover have "\<exists>i. pos \<le> i \<and> i \<le> length s \<and> m s i \<noteq> None"
        using False Some by (intro exI [of _ pos]) simp
      ultimately show ?thesis by simp
    qed
  qed
qed

lemma is_space_lower_char [simp]: "is_space_char (lower_char c) = is_space_char c"
  by (auto simp: is_space_char_def lower_char_def Let_def)

lemma newline_is_space: "is_space_char (CHR 0x0A)"
  by (simp add: is_space_char_def)

lemma final_nonword_search:
  assumes "s = [] \<or> \<not> is_space_char (last s)"
  shows "finditer match_final_nonword s 0 \<noteq> [] \<longleftrightarrow> s \<noteq> [] \<and> \<not> is_word_char (last s)"
proof (cases "s = []")
  case True
  then show ?thesis
    by (simp add: finditer_nonempty_iff match_final_nonword_def nonword_at_def)
next
  case False
  with assms have ns: "\<not> is_space_char (last s)" by simp
  have last: "last s = s ! (length s - 1)" using False by (simp add: last_conv_nth)
  have at_last: "s ! i = last s" if "Suc i = length s" for i
    using that last by (metis diff_Suc_1)
  have "match_final_nonword s i \<noteq> None \<longleftrightarrow> Suc i = length s \<and> \<not> is_word_char (last s)" for i
  proof -
    have "\<not> (Suc (Suc i) = length s \<and> s ! Suc i = CHR 0x0A)"
      using at_last [of "Suc i"] ns newline_is_space by auto
    then have "match_final_nonword s i \<noteq> None \<longleftrightarrow> Suc i = length s \<and> \<not> is_word_char (s ! i)"
      by (auto simp: match_final_nonword_def nonword_at_def at_end_def)
    then show ?thesis using at_last [of i] by auto
  qed
  then have "finditer match_final_nonword s 0 \<noteq> [] \<longleftrightarrow>
             (\<exists>i. i \<le> length s \<and> Suc i = length s \<and> \<not> is_word_char (last s))"
    by (simp add: finditer_nonempty_iff)
  also have "\<dots> \<longleftrightarrow> \<not> is_word_char (last s)"
    using False by (metis Suc_pred le_SucI le_refl length_greater_0_conv)
  finally show ?thesis using False by simp
qed

lemma strip_ends: "strip s = [] \<or> \<not> is_space_char (last (strip s))"
proof -
  let ?t = "dropWhile is_space_char (rev (dropWhile is_space_char s))"
  have "?t = [] \<or> \<not> is_space_char (hd ?t)" by (metis hd_dropWhile)
  then show ?thesis by (auto simp: strip_def last_rev)
qed

lemma lower_ends: "s = [] \<or> \<not> is_space_char (last s) \<Longrightarrow>
  lower s = [] \<or> \<not> is_space_char (last (lower s))"
  by (auto simp: lower_def last_map)

lemma drop_ends: "s = [] \<or> \<not> is_space_char (last s) \<Longrightarrow>
  drop n s = [] \<or> \<not> is_space_char (last (drop n s))"
  by (cases "n < length s") auto

lemma strip_lower: "strip (lower s) = lower (strip s)"
  by (simp add: strip_def lower_def dropWhile_map rev_map comp_def)

lemma trim_leading_eq: "trim_leading s = dropWhile is_space_char s"
  by (induction s) simp_all

lemma trim_trailing_eq: "trim_trailing s = rev (dropWhile is_space_char (rev s))"
proof (induction s)
  case Nil
  show ?case by simp
next
  case (Cons c cs)
  show ?case
  proof (cases "\<forall>x \<in> set cs. is_space_char x")
    case True
    then have "dropWhile is_space_char (rev cs) = []" by simp
    with True Cons.IH show ?thesis
      by (simp add: dropWhile_append list_all_iff)
  next
    case False
    with Cons.IH show ?thesis
      by (auto simp: dropWhile_append list_all_iff)
  qed
qed

lemma strip_eq_trim_spec: "strip s = trim_spec s"
  by (simp add: strip_def trim_spec_def trim_leading_eq trim_trailing_eq)

lemma startswith_the: "startswith x ''the '' = (take 4 x = ''the '')"
proof -
  have "length ''the '' = 4" by simp
  then show ?thesis unfolding startswith_def by (simp only:)
qed

text \<open>What \<open>strip\<close> removes is white space, and what it leaves has none at its ends.\<close>

lemma strip_trims:
  "\<exists>l r. a = l @ strip a @ r \<and> list_all is_space_char l \<and> list_all is_space_char r
         \<and> (strip a = [] \<or> \<not> is_space_char (hd (strip a)) \<and> \<not> is_space_char (last (strip a)))"
proof -
  let ?l = "takeWhile is_space_char a"
  let ?m = "dropWhile is_space_char a"
  let ?r = "rev (takeWhile is_space_char (rev ?m))"
  have s: "strip a = rev (dropWhile is_space_char (rev ?m))" by (simp add: strip_def)
  have "strip a @ ?r = rev (takeWhile is_space_char (rev ?m) @ dropWhile is_space_char (rev ?m))"
    by (simp only: s rev_append)
  also have "\<dots> = rev (rev ?m)" by (simp only: takeWhile_dropWhile_id)
  also have "\<dots> = ?m" by (simp only: rev_rev_ident)
  finally have m: "?m = strip a @ ?r" by (rule sym)
  have "a = ?l @ ?m" by simp
  with m have split: "a = ?l @ strip a @ ?r" by simp
  have wl: "list_all is_space_char ?l"
    by (auto simp: list_all_iff dest: set_takeWhileD)
  have wr: "list_all is_space_char ?r"
    by (auto simp: list_all_iff dest: set_takeWhileD)
  have ends: "\<not> is_space_char (hd (strip a)) \<and> \<not> is_space_char (last (strip a))"
    if ne: "strip a \<noteq> []"
  proof
    have front: "M \<noteq> [] \<and> hd S = hd M" if "M = S @ t" and "S \<noteq> []" for M S t :: string
      using that by (cases S) simp_all
    from front [OF m ne] have "?m \<noteq> []" and "hd (strip a) = hd ?m" by simp_all
    then show "\<not> is_space_char (hd (strip a))" by (metis hd_dropWhile)
    from ne strip_ends [of a] show "\<not> is_space_char (last (strip a))" by simp
  qed
  from split wl wr ends show ?thesis by blast
qed

text \<open>
  C9.  Cleaning an answer lowercases and trims it, strips a leading \<open>"the "\<close> and strips
  the final character when it is not a word character: for every answer \<open>clean_answer\<close>
  computes what the rule of the specification says, where the trimming of the rule is
  written on its own; the \<open>strip\<close> of the code cuts white space only, at both ends, and
  leaves none there.  \<open>"The Protein."\<close> is cleaned to \<open>"protein"\<close>, and so is the same
  answer between blanks; tabs and newlines around an answer are trimmed as well.
\<close>

theorem clean_answer_refines_spec:
  "clean_answer a = clean_answer_spec a
   \<and> (\<exists>l r. a = l @ strip a @ r \<and> list_all is_space_char l \<and> list_all is_space_char r
          \<and> (strip a = [] \<or> \<not> is_space_char (hd (strip a)) \<and> \<not> is_space_char (last (strip a))))
   \<and> clean_answer ''The Protein.'' = ''protein''
   \<and> clean_answer ''  The Protein. '' = ''protein''
   \<and> clean_answer (CHR 0x09 # ''the Cell-Cycle '' @ [CHR 0x0A]) = ''cell-cycle''
   \<and> clean_answer ''   '' = []"
proof (intro conjI)
  let ?s = "lower (strip a)"
  let ?t = "if startswith ?s ''the '' then drop 4 ?s else ?s"
  have "?s = [] \<or> \<not> is_space_char (last ?s)" by (rule lower_ends [OF strip_ends])
  then have "?t = [] \<or> \<not> is_space_char (last ?t)" using drop_ends [of ?s 4] by presburger
  from final_nonword_search [OF this]
  have "clean_answer a =
          (if ?t \<noteq> [] \<and> \<not> is_word_char (last ?t) then butlast ?t else ?t)"
    unfolding clean_answer_def Let_def by simp
  also have "\<dots> = clean_answer_spec a"
    unfolding clean_answer_spec_def Let_def
    by (simp only: startswith_the strip_eq_trim_spec [symmetric] strip_lower)
  finally show "clean_answer a = clean_answer_spec a" .
  show "\<exists>l r. a = l @ strip a @ r \<and> list_all is_space_char l \<and> list_all is_space_char r
          \<and> (strip a = [] \<or> \<not> is_space_char (hd (strip a)) \<and> \<not> is_space_char (last (strip a)))"
    by (rule strip_trims)
  show "clean_answer ''The Protein.'' = ''protein''" by code_simp
  show "clean_answer ''  The Protein. '' = ''protein''" by code_simp
  show "clean_answer (CHR 0x09 # ''the Cell-Cycle '' @ [CHR 0x0A]) = ''cell-cycle''" by code_simp
  show "clean_answer ''   '' = []" by code_simp
qed

section \<open>Empty lists of alternatives\<close>

lemma find_best_answer_empty: "find_best_answer ctx [] = Inl IndexError"
  by (simp add: find_best_answer_def)

lemma find_best_answer_nonempty: "alts \<noteq> [] \<Longrightarrow> \<exists>x. find_best_answer ctx alts = Inr x"
  by (cases alts) (auto simp: find_best_answer_def split: option.splits)

lemma select_answers_empty_alternatives:
  "Alternatives [] \<in> set slots \<Longrightarrow> select_answers ctx slots = Inl IndexError"
proof (induction slots)
  case Nil
  then show ?case by simp
next
  case (Cons a rest)
  show ?case
  proof (cases "a = Alternatives []")
    case True
    then show ?thesis by (simp add: find_best_answer_empty)
  next
    case False
    with Cons have rest: "select_answers ctx rest = Inl IndexError" by simp
    show ?thesis
    proof (cases a)
      case (Plain s)
      with rest show ?thesis by simp
    next
      case (Alternatives alts)
      with False have "alts \<noteq> []" by simp
      then obtain x where "find_best_answer ctx alts = Inr x"
        using find_best_answer_nonempty by blast
      with Alternatives rest show ?thesis by simp
    qed
  qed
qed

lemma build_all_error:
  "q \<in> set qs \<Longrightarrow> build_paragraph q = Inl e \<Longrightarrow> \<exists>e'. build_all qs = Inl e'"
  by (induction qs) (auto split: sum.splits prod.splits)

text \<open>
  C10.  When an element of \<open>exact_answer\<close> is an empty list of alternatives, answer
  resolution raises \<open>IndexError\<close> (from \<open>answers[0]\<close>), whatever the context; it is
  neither the skip of the question nor the assertion on an empty \<open>exact_answer\<close>.
  \<open>build_paragraph\<close> passes the error on, and a run whose filtered questions include
  such a question ends with an error.
\<close>

theorem empty_alternatives_raise_IndexError:
  assumes "Alternatives [] \<in> set (slots_of (exact_answer q))"
    and "q \<in> set (fst (filter_questions qs))"
  shows "get_answers q ctx = Inl IndexError
         \<and> build_paragraph q = Inl IndexError
         \<and> (\<exists>e. run R path \<lparr>questions = qs\<rparr> = Inl e)"
proof -
  have ga: "get_answers q c = Inl IndexError" for c
    using select_answers_empty_alternatives [OF assms(1)] by (simp add: get_answers_def)
  then have bp: "build_paragraph q = Inl IndexError"
    by (simp add: build_paragraph_def split: prod.splits)
  obtain e where "build_all (fst (filter_questions qs)) = Inl e"
    using build_all_error [OF assms(2) bp] by blast
  then have "build_paragraphs \<lparr>questions = qs\<rparr> = Inl e"
    by (cases "filter_questions qs") (simp add: build_paragraphs_def)
  then have "run R path \<lparr>questions = qs\<rparr> = Inl e"
    by (simp add: run_def convert_to_squad_def)
  with ga bp show ?thesis by blast
qed

theorem empty_alternatives_raise_IndexError_witness:
  "Alternatives [] \<in> set (slots_of (exact_answer question_with_empty_slot))
   \<and> question_with_empty_slot \<in> set (fst (filter_questions [example_question, question_with_empty_slot]))
   \<and> get_answers question_with_empty_slot ''protein x is important.'' = Inl IndexError
   \<and> build_paragraph question_with_empty_slot = Inl IndexError
   \<and> (\<exists>e. run example_rng ''bioasq.json'' \<lparr>questions = [example_question, question_with_empty_slot]\<rparr> = Inl e)"
proof -
  have a: "Alternatives [] \<in> set (slots_of (exact_answer question_with_empty_slot))"
    by (simp add: question_with_empty_slot_def example_question_def)
  have b: "question_with_empty_slot \<in> set (fst (filter_questions [example_question, question_with_empty_slot]))"
    by (simp add: question_with_empty_slot_def example_question_def)
  show ?thesis
    using a b empty_alternatives_raise_IndexError [OF a b, of "''protein x is important.''" example_rng "''bioasq.json''"] by simp
qed

section \<open>Logging of the question filter\<close>

text \<open>
  C4, as stated, fails: a question of type yesno is dropped and nothing is logged.
\<close>

theorem unsupported_type_dropped_silently:
  "filter_questions [yesno_question] = ([], [])"
  by (simp add: yesno_question_def example_question_def)

text \<open>
  C4, as the code has it.  The filter keeps the questions of type factoid or list that have
  a snippet.  It logs one warning, \<open>Skipping question <id>. No snippets.\<close>, for each
  question of a supported type without snippets, in input order, and nothing else: a
  question of another type is dropped without a log entry.
\<close>

theorem filter_questions_result_and_log:
  "filter_questions qs =
     (filter (\<lambda>q. qtype q \<in> set [''factoid'', ''list''] \<and> length (snippets q) \<noteq> 0) qs,
      map (\<lambda>q. ''Skipping question '' @ qid q @ ''. No snippets.'')
          (filter (\<lambda>q. qtype q \<in> set [''factoid'', ''list''] \<and> length (snippets q) = 0) qs))"
  by (induction qs) (auto simp: Let_def split: prod.splits)

section \<open>Emitted paragraphs have answers\<close>

lemma get_answers_Some: "get_answers q ctx = Inr (Some objs, w) \<Longrightarrow> objs \<noteq> []"
  by (auto simp: get_answers_def Let_def split: sum.splits if_splits)

lemma build_paragraph_Some:
  "build_paragraph q = Inr (Some (p, t), w) \<Longrightarrow> \<exists>a. qas p = [a] \<and> answers a \<noteq> []"
  by (auto simp: build_paragraph_def split: prod.splits sum.splits option.splits
      dest!: get_answers_Some)

lemma build_all_Some:
  "build_all qs = Inr (rs, w) \<Longrightarrow> Some (p, t) \<in> set rs
   \<Longrightarrow> \<exists>a. qas p = [a] \<and> answers a \<noteq> []"
proof (induction qs arbitrary: rs w)
  case Nil
  then show ?case by simp
next
  case (Cons q qs)
  from Cons.prems(1) obtain r w1 rs' w2 where bp: "build_paragraph q = Inr (r, w1)"
    and ba: "build_all qs = Inr (rs', w2)" and rs: "rs = r # rs'"
    by (auto split: sum.splits prod.splits)
  show ?case
  proof (cases "r = Some (p, t)")
    case True
    with bp show ?thesis by (auto dest: build_paragraph_Some)
  next
    case False
    with Cons.prems(2) rs have "Some (p, t) \<in> set rs'" by simp
    with ba show ?thesis by (rule Cons.IH)
  qed
qed

lemma build_paragraphs_answers:
  assumes "build_paragraphs d = Inr ((ps, n), w)" and "p \<in> set ps"
  shows "\<exists>a. qas p = [a] \<and> answers a \<noteq> []"
proof -
  obtain filtered w1 where f: "filter_questions (questions d) = (filtered, w1)"
    by (cases "filter_questions (questions d)")
  obtain rs w2 where b: "build_all filtered = Inr (rs, w2)"
    and ps: "ps = map fst (concat (map (\<lambda>r. case r of None \<Rightarrow> [] | Some p \<Rightarrow> [p]) rs))"
    using assms(1) f
    by (auto simp: build_paragraphs_def Let_def split: sum.splits prod.splits if_splits)
  from assms(2) ps obtain t where "Some (p, t) \<in> set rs"
    by (auto split: option.splits)
  with b show ?thesis by (rule build_all_Some)
qed

lemma split_loop_subset:
  "split_loop ps ti perm tr dv = Inr (tr', dv')
   \<Longrightarrow> set tr' \<union> set dv' \<subseteq> set tr \<union> set dv \<union> set ps"
proof (induction perm arbitrary: tr dv)
  case Nil
  then show ?case by auto
next
  case (Cons i rest)
  show ?case
  proof (cases "i < length ps")
    case False
    with Cons.prems show ?thesis by (simp split: if_splits)
  next
    case True
    then have "ps ! i \<in> set ps" by simp
    with Cons.prems Cons.IH [of "tr @ [ps ! i]" dv] Cons.IH [of tr "dv @ [ps ! i]"] True
    show ?thesis by (auto split: if_splits)
  qed
qed

lemma convert_emitted_subset:
  assumes "convert_to_squad R g path d = Inr out"
  shows "\<exists>ps n w. build_paragraphs d = Inr ((ps, n), w) \<and> set (emitted_paragraphs out) \<subseteq> set ps"
proof -
  from assms obtain ps n w where bp: "build_paragraphs d = Inr ((ps, n), w)"
    by (auto simp: convert_to_squad_def split: sum.splits prod.splits)
  from assms bp obtain tr dv g' where sp: "split_paragraphs R g ps = Inr ((tr, dv), g')"
    and tr: "train_json out = build_result_object (path @ '' - train'') tr"
    and dv: "dev_json out = build_result_object (path @ '' - dev'') dv"
    by (auto simp: convert_to_squad_def split: sum.splits prod.splits)
  from sp obtain ti perm where "split_loop ps ti perm [] [] = Inr (tr, dv)"
    by (auto simp: split_paragraphs_def Let_def split: sum.splits prod.splits)
  from split_loop_subset [OF this] have "set tr \<union> set dv \<subseteq> set ps" by simp
  then have "set (emitted_paragraphs out) \<subseteq> set ps"
    by (simp add: emitted_paragraphs_def tr dv build_result_object_def)
  with bp show ?thesis by blast
qed

text \<open>
  C8.  Every paragraph of the train or dev document of a run has exactly one \<open>qas\<close>
  entry, and its list of answers is not empty.  A question for which answer resolution
  finds no span (the selected answers locate nothing in the context) gives no paragraph:
  \<open>build_paragraph\<close> returns \<open>None\<close> with the warning.
\<close>

theorem emitted_answers_nonempty:
  "(convert_to_squad R g path d = Inr out \<longrightarrow>
      (\<forall>p \<in> set (emitted_paragraphs out). \<exists>a. qas p = [a] \<and> 1 \<le> length (answers a)))
   \<and> (select_answers (lower (fst (get_context q))) (slots_of (exact_answer q)) = Inr selected
        \<and> selected \<noteq> []
        \<and> answer_objects_of (lower (fst (get_context q))) selected = []
      \<longrightarrow> build_paragraph q = Inr (None, [''Skipping question '' @ qid q @ ''. No matching answer.'']))"
proof (intro conjI impI ballI)
  fix p
  assume "convert_to_squad R g path d = Inr out" and "p \<in> set (emitted_paragraphs out)"
  then obtain ps n w where "build_paragraphs d = Inr ((ps, n), w)" and "p \<in> set ps"
    using convert_emitted_subset [of R g path d out] by blast
  then have "\<exists>a. qas p = [a] \<and> answers a \<noteq> []"
    by (rule build_paragraphs_answers)
  then show "\<exists>a. qas p = [a] \<and> 1 \<le> length (answers a)"
    by (simp add: Suc_le_eq)
next
  assume "select_answers (lower (fst (get_context q))) (slots_of (exact_answer q)) = Inr selected
        \<and> selected \<noteq> []
        \<and> answer_objects_of (lower (fst (get_context q))) selected = []"
  moreover obtain c t where "get_context q = (c, t)" by (cases "get_context q")
  ultimately show "build_paragraph q = Inr (None, [''Skipping question '' @ qid q @ ''. No matching answer.''])"
    by (simp add: build_paragraph_def get_answers_def Let_def)
qed

lemma example_run:
  "convert_to_squad example_rng 0 ''bioasq.json'' \<lparr>questions = [example_question]\<rparr> =
     Inr example_output"
  by code_simp

theorem emitted_answers_nonempty_witness:
  "convert_to_squad example_rng 0 ''bioasq.json'' \<lparr>questions = [example_question]\<rparr> =
     Inr example_output
   \<and> emitted_paragraphs example_output = [example_paragraph]
   \<and> (\<exists>a. qas example_paragraph = [a] \<and> 1 \<le> length (answers a))
   \<and> select_answers (lower (fst (get_context question_without_match)))
        (slots_of (exact_answer question_without_match)) = Inr [''Enzyme Y'']
   \<and> answer_objects_of (lower (fst (get_context question_without_match))) [''Enzyme Y''] = []
   \<and> build_paragraph question_without_match =
       Inr (None, [''Skipping question '' @ qid question_without_match @ ''. No matching answer.''])"
proof -
  note T = emitted_answers_nonempty [of example_rng 0 "''bioasq.json''"
      "\<lparr>questions = [example_question]\<rparr>" example_output question_without_match "[''Enzyme Y'']"]
  have em: "emitted_paragraphs example_output = [example_paragraph]"
    by (simp add: emitted_paragraphs_def example_output_def build_result_object_def)
  have sel: "select_answers (lower (fst (get_context question_without_match)))
        (slots_of (exact_answer question_without_match)) = Inr [''Enzyme Y'']"
    by (simp add: question_without_match_def example_question_def)
  have none: "answer_objects_of (lower (fst (get_context question_without_match))) [''Enzyme Y''] = []"
    by code_simp
  from T example_run
  have "\<forall>p \<in> set (emitted_paragraphs example_output). \<exists>a. qas p = [a] \<and> 1 \<le> length (answers a)"
    by blast
  with em have one: "\<exists>a. qas example_paragraph = [a] \<and> 1 \<le> length (answers a)" by simp
  from T sel none have "build_paragraph question_without_match =
       Inr (None, [''Skipping question '' @ qid question_without_match @ ''. No matching answer.''])"
    by blast
  with example_run em one sel none show ?thesis by blast
qed

section \<open>Truncation of the context\<close>

lemma get_context_loop_all:
  "distinct xs \<Longrightarrow> set xs \<inter> seen = {}
   \<Longrightarrow> n + sum_list (map (\<lambda>s. length (tokenize s)) xs) \<le> CONTEXT_TOKEN_LIMIT
   \<Longrightarrow> get_context_loop xs seen n acc = (acc @ xs, False)"
proof (induction xs arbitrary: seen n acc)
  case Nil
  then show ?case by simp
next
  case (Cons x xs)
  from Cons.prems have "x \<notin> seen" and "distinct xs" and "set xs \<inter> insert x seen = {}"
    and "\<not> CONTEXT_TOKEN_LIMIT < n + length (tokenize x)"
    and "(n + length (tokenize x)) + sum_list (map (\<lambda>s. length (tokenize s)) xs) \<le> CONTEXT_TOKEN_LIMIT"
    by auto
  then show ?case using Cons.IH [of "insert x seen" "n + length (tokenize x)" "acc @ [x]"]
    by (simp add: Let_def)
qed

lemma get_context_loop_truncate:
  "distinct xs \<Longrightarrow> set xs \<inter> seen = {} \<Longrightarrow> k < length xs
   \<Longrightarrow> n + sum_list (map (\<lambda>s. length (tokenize s)) (take k xs)) \<le> CONTEXT_TOKEN_LIMIT
   \<Longrightarrow> CONTEXT_TOKEN_LIMIT < n + sum_list (map (\<lambda>s. length (tokenize s)) (take (Suc k) xs))
   \<Longrightarrow> get_context_loop xs seen n acc = (acc @ take k xs, True)"
proof (induction xs arbitrary: seen n acc k)
  case Nil
  then show ?case by simp
next
  case (Cons x xs)
  from Cons.prems have notin: "x \<notin> seen" and d: "distinct xs" and disj: "set xs \<inter> insert x seen = {}"
    by auto
  show ?case
  proof (cases k)
    case 0
    with Cons.prems notin show ?thesis by (simp add: Let_def)
  next
    case (Suc j)
    with Cons.prems have j: "j < length xs"
      and le: "(n + length (tokenize x)) + sum_list (map (\<lambda>s. length (tokenize s)) (take j xs)) \<le> CONTEXT_TOKEN_LIMIT"
      and gt: "CONTEXT_TOKEN_LIMIT < (n + length (tokenize x)) + sum_list (map (\<lambda>s. length (tokenize s)) (take (Suc j) xs))"
      by (auto simp: add.assoc)
    from le have "\<not> CONTEXT_TOKEN_LIMIT < n + length (tokenize x)" by simp
    with notin Suc show ?thesis
      using Cons.IH [OF d disj j le gt, of "acc @ [x]"] by (simp add: Let_def)
  qed
qed

text \<open>
  C5.  For pairwise distinct snippets: when the token count of all snippets together is
  exactly 700, the context is all of them joined by single spaces and the truncated flag
  is false; when the cumulative count first exceeds 700 at snippet \<open>k\<close> (counting from
  1), the flag is true and the context is exactly the snippets \<open>1..k-1\<close>, in order,
  joined by single spaces.
\<close>

theorem context_truncation_boundary:
  assumes "distinct (snippet_texts q)"
  shows "(tokens_up_to q (length (snippets q)) = 700
            \<longrightarrow> get_context q = (join '' '' (snippet_texts q), False))
         \<and> (1 \<le> k \<and> k \<le> length (snippets q)
            \<and> tokens_up_to q (k - 1) \<le> 700 \<and> 700 < tokens_up_to q k
            \<longrightarrow> get_context q = (join '' '' (take (k - 1) (snippet_texts q)), True))"
proof (intro conjI impI)
  let ?xs = "snippet_texts q"
  assume "tokens_up_to q (length (snippets q)) = 700"
  then have "sum_list (map (\<lambda>s. length (tokenize s)) ?xs) = 700"
    by (simp add: tokens_up_to_def snippet_texts_def)
  then have "get_context_loop ?xs {} 0 [] = ([] @ ?xs, False)"
    using assms by (intro get_context_loop_all) (simp_all add: CONTEXT_TOKEN_LIMIT_def)
  then show "get_context q = (join '' '' ?xs, False)"
    by (simp add: get_context_def)
next
  let ?xs = "snippet_texts q"
  assume h: "1 \<le> k \<and> k \<le> length (snippets q)
            \<and> tokens_up_to q (k - 1) \<le> 700 \<and> 700 < tokens_up_to q k"
  then have k: "Suc (k - 1) = k" and lt: "k - 1 < length ?xs"
    by (auto simp: snippet_texts_def)
  have "get_context_loop ?xs {} 0 [] = ([] @ take (k - 1) ?xs, True)"
    using assms h lt
    by (intro get_context_loop_truncate) (simp_all add: CONTEXT_TOKEN_LIMIT_def tokens_up_to_def k)
  then show "get_context q = (join '' '' (take (k - 1) ?xs), True)"
    by (simp add: get_context_def)
qed

lemma finditer_dots:
  "pos \<le> n \<Longrightarrow> length (finditer match_token (replicate n CHR ''.'') pos) = n - pos"
proof (induction "n - pos" arbitrary: pos)
  case 0
  then have "pos = n" by simp
  then show ?case
    by (simp add: finditer.simps [of _ _ n] finditer.simps [of _ _ "Suc n"] match_token_def)
next
  case (Suc d)
  then have lt: "pos < n" and d: "d = n - Suc pos" by auto
  have m: "match_token (replicate n CHR ''.'') pos = Some (Suc pos)"
    using lt by (simp add: match_token_def is_word_char_def is_space_char_def)
  have "finditer match_token (replicate n CHR ''.'') pos
        = (pos, Suc pos) # finditer match_token (replicate n CHR ''.'') (Suc pos)"
    using lt m by (simp add: finditer.simps [of _ _ pos])
  then show ?case using Suc.hyps(1) [OF d] lt by simp
qed

lemma tokens_of_dots: "length (tokenize (replicate n CHR ''.'')) = n"
  using finditer_dots [of 0 n] by (simp add: tokenize_def)

lemma many_dots_tokens: "length (tokenize many_dots) = 699"
  by (simp add: many_dots_def tokens_of_dots)

lemma many_dots_distinct: "many_dots \<noteq> ''x''" "many_dots \<noteq> ''a b''" "many_dots \<noteq> ''c''"
proof -
  have len: "length many_dots = 699" by (simp add: many_dots_def)
  have ne: "many_dots \<noteq> s" if "length s \<noteq> 699" for s
    using that len by auto
  show "many_dots \<noteq> ''x''" "many_dots \<noteq> ''a b''" "many_dots \<noteq> ''c''"
    by (simp_all add: ne)
qed

theorem context_truncation_boundary_witness:
  "distinct (snippet_texts full_question)
   \<and> tokens_up_to full_question (length (snippets full_question)) = 700
   \<and> get_context full_question = (many_dots @ '' x'', False)
   \<and> distinct (snippet_texts overfull_question)
   \<and> (1::nat) \<le> 2 \<and> 2 \<le> length (snippets overfull_question)
   \<and> tokens_up_to overfull_question (2 - 1) \<le> 700
   \<and> 700 < tokens_up_to overfull_question 2
   \<and> get_context overfull_question = (''a b'', True)"
proof -
  have tx: "length (tokenize ''x'') = 1" by code_simp
  have tab: "length (tokenize ''a b'') = 2" by code_simp
  have d1: "distinct (snippet_texts full_question)"
    by (simp add: snippet_texts_def full_question_def many_dots_distinct)
  have s1: "tokens_up_to full_question (length (snippets full_question)) = 700"
    by (simp add: tokens_up_to_def snippet_texts_def full_question_def many_dots_tokens tx)
  have d2: "distinct (snippet_texts overfull_question)"
    using many_dots_distinct by (auto simp: snippet_texts_def overfull_question_def)
  have l2: "2 \<le> length (snippets overfull_question)"
    by (simp add: overfull_question_def)
  have a2: "tokens_up_to overfull_question (2 - 1) \<le> 700"
    by (simp add: tokens_up_to_def snippet_texts_def overfull_question_def tab)
  have b2: "700 < tokens_up_to overfull_question 2"
    by (simp add: tokens_up_to_def snippet_texts_def overfull_question_def tab many_dots_tokens)
  have "get_context full_question = (join '' '' (snippet_texts full_question), False)"
    using context_truncation_boundary [OF d1, of 0] s1 by blast
  then have r1: "get_context full_question = (many_dots @ '' x'', False)"
    by (simp add: snippet_texts_def full_question_def)
  have "get_context overfull_question = (join '' '' (take (2 - 1) (snippet_texts overfull_question)), True)"
    using context_truncation_boundary [OF d2, of 2] l2 a2 b2 by simp
  then have r2: "get_context overfull_question = (''a b'', True)"
    by (simp add: snippet_texts_def overfull_question_def)
  from d1 s1 r1 d2 l2 a2 b2 r2 show ?thesis by simp
qed

section \<open>The split is a partition\<close>

lemma split_loop_eq:
  "set perm \<subseteq> {..<length ps}
   \<Longrightarrow> split_loop ps ti perm tr dv =
       Inr (tr @ map ((!) ps) (filter (\<lambda>i. i \<in> set ti) perm),
            dv @ map ((!) ps) (filter (\<lambda>i. i \<notin> set ti) perm))"
  by (induction perm arbitrary: tr dv) auto

lemma train_size_of_eq: "train_size_of n = (4 * n) div 5"
  by (simp add: train_size_of_def TRAIN_FRACTION_def) linarith

lemma permutation_facts:
  assumes "mset perm = mset [0..<n]"
  shows "set perm = {..<n}" and "distinct perm"
proof -
  from assms have "set perm = set [0..<n]" by (rule mset_eq_setD)
  then show "set perm = {..<n}" by auto
  from assms show "distinct perm" by (metis distinct_upt mset_eq_imp_distinct_iff)
qed

lemma train_count:
  assumes "mset perm = mset [0..<n]" and "distinct ti" and "set ti \<subseteq> {..<n}"
  shows "length (filter (\<lambda>i. i \<in> set ti) perm) = length ti"
proof -
  have "length (filter (\<lambda>i. i \<in> set ti) perm) = card ({i. i \<in> set ti} \<inter> set perm)"
    using permutation_facts(2) [OF assms(1)] by (rule distinct_length_filter)
  also have "{i. i \<in> set ti} \<inter> set perm = set ti"
    using permutation_facts(1) [OF assms(1)] assms(3) by auto
  also have "card (set ti) = length ti" using assms(2) by (rule distinct_card)
  finally show ?thesis .
qed

lemma mset_map_filter_partition:
  "mset (map f (filter P xs)) + mset (map f (filter (\<lambda>i. \<not> P i) xs)) = mset (map f xs)"
  by (induction xs) auto

lemma split_mset:
  assumes "mset perm = mset [0..<length ps]"
  shows "mset (map ((!) ps) (filter P perm)) + mset (map ((!) ps) (filter (\<lambda>i. \<not> P i) perm)) = mset ps"
proof -
  have "mset (map ((!) ps) perm) = image_mset ((!) ps) (mset [0..<length ps])"
    using assms by simp
  also have "\<dots> = mset (map ((!) ps) [0..<length ps])" by simp
  also have "map ((!) ps) [0..<length ps] = ps" by (rule map_nth)
  finally show ?thesis by (simp only: mset_map_filter_partition)
qed

text \<open>
  C6.  When the generator keeps numpy's contract (the sample has \<open>train_size\<close> distinct
  indices below \<open>N\<close>, the permutation is a permutation of \<open>0..N-1\<close>), the Splitter
  returns, and every paragraph goes to exactly one of train and dev: the two lists
  together hold the paragraphs of the input, each as often as the input does, so
  \<open>|train| + |dev| = N\<close>; \<open>|train| = floor(0.8 * N)\<close>; and when the input paragraphs are
  pairwise different no paragraph is in both lists.
\<close>

theorem split_is_partition:
  assumes "choice R g (length ps) (train_size_of (length ps)) = (train_indices, g1)"
    and "permutation R g1 (length ps) = (perm, g2)"
    and "distinct train_indices"
    and "set train_indices \<subseteq> {..<length ps}"
    and "length train_indices = train_size_of (length ps)"
    and "mset perm = mset [0..<length ps]"
  shows "\<exists>train dev.
           split_paragraphs R g ps = Inr ((train, dev), g2)
           \<and> train = map ((!) ps) (filter (\<lambda>i. i \<in> set train_indices) perm)
           \<and> dev = map ((!) ps) (filter (\<lambda>i. i \<notin> set train_indices) perm)
           \<and> mset train + mset dev = mset ps
           \<and> length train + length dev = length ps
           \<and> length train = nat \<lfloor>0.8 * real (length ps)\<rfloor>
           \<and> (distinct ps \<longrightarrow> set train \<inter> set dev = {})"
proof -
  let ?train = "map ((!) ps) (filter (\<lambda>i. i \<in> set train_indices) perm)"
  let ?dev = "map ((!) ps) (filter (\<lambda>i. i \<notin> set train_indices) perm)"
  have sp: "set perm = {..<length ps}" using assms(6) by (rule permutation_facts(1))
  then have "split_loop ps train_indices perm [] [] = Inr (?train, ?dev)"
    by (simp add: split_loop_eq)
  then have run: "split_paragraphs R g ps = Inr ((?train, ?dev), g2)"
    using assms(1,2) by (simp add: split_paragraphs_def)
  have ms: "mset ?train + mset ?dev = mset ps"
    using assms(6) by (rule split_mset)
  have "length perm = length [0..<length ps]" using assms(6) by (rule mset_eq_length)
  then have len: "length ?train + length ?dev = length ps"
    by (simp add: sum_length_filter_compl)
  have "length ?train = length train_indices"
    using train_count [OF assms(6,3,4)] by simp
  then have tl: "length ?train = nat \<lfloor>0.8 * real (length ps)\<rfloor>"
    using assms(5) by (simp add: train_size_of_def TRAIN_FRACTION_def)
  have dj: "set ?train \<inter> set ?dev = {}" if d: "distinct ps"
  proof (rule ccontr)
    assume "set ?train \<inter> set ?dev \<noteq> {}"
    then obtain x where "x \<in> set ?train" and "x \<in> set ?dev" by blast
    then obtain i j where i: "i \<in> set perm" "i \<in> set train_indices" "x = ps ! i"
      and j: "j \<in> set perm" "j \<notin> set train_indices" "x = ps ! j"
      by auto
    from i(1) j(1) sp have "i < length ps" "j < length ps" by simp_all
    with d i(3) j(3) have "i = j" by (simp add: nth_eq_iff_index_eq)
    with i(2) j(2) show False by simp
  qed
  from run ms len tl dj show ?thesis by blast
qed

theorem split_is_partition_witness:
  "choice example_rng 0 (length [10, 11, 12, 13, 14, 15 :: nat])
       (train_size_of (length [10, 11, 12, 13, 14, 15 :: nat])) = ([5, 4, 3, 2], 1)
   \<and> permutation example_rng 1 (length [10, 11, 12, 13, 14, 15 :: nat]) = ([5, 4, 3, 2, 1, 0], 2)
   \<and> distinct [5, 4, 3, 2 :: nat]
   \<and> set [5, 4, 3, 2] \<subseteq> {..<length [10, 11, 12, 13, 14, 15 :: nat]}
   \<and> length [5, 4, 3, 2 :: nat] = train_size_of (length [10, 11, 12, 13, 14, 15 :: nat])
   \<and> mset [5, 4, 3, 2, 1, 0] = mset [0..<length [10, 11, 12, 13, 14, 15 :: nat]]
   \<and> split_paragraphs example_rng 0 [10, 11, 12, 13, 14, 15 :: nat]
       = Inr (([15, 14, 13, 12], [11, 10]), 2)
   \<and> length [15, 14, 13, 12 :: nat] = nat \<lfloor>0.8 * real (length [10, 11, 12, 13, 14, 15 :: nat])\<rfloor>
   \<and> distinct [10, 11, 12, 13, 14, 15 :: nat]
   \<and> set [15, 14, 13, 12 :: nat] \<inter> set [11, 10] = {}"
proof -
  let ?ps = "[10, 11, 12, 13, 14, 15 :: nat]"
  have ts: "train_size_of (length ?ps) = 4"
    by (simp add: train_size_of_def TRAIN_FRACTION_def)
  have upt: "[0..<length ?ps] = [0, 1, 2, 3, 4, 5]"
    by (simp add: upt_rec)
  have h1: "choice example_rng 0 (length ?ps) (train_size_of (length ?ps)) = ([5, 4, 3, 2], 1)"
    unfolding ts upt example_rng_def using upt by simp
  have h2: "permutation example_rng 1 (length ?ps) = ([5, 4, 3, 2, 1, 0], 2)"
    unfolding example_rng_def using upt by simp
  have h3: "distinct [5, 4, 3, 2 :: nat]" by simp
  have h4: "set [5, 4, 3, 2] \<subseteq> {..<length ?ps}" by simp
  have h5: "length [5, 4, 3, 2 :: nat] = train_size_of (length ?ps)" using ts by simp
  have h6: "mset [5, 4, 3, 2, 1, 0] = mset [0..<length ?ps]" unfolding upt by simp
  have d: "distinct ?ps" by simp
  from split_is_partition [OF h1 h2 h3 h4 h5 h6] obtain train dev where
    r: "split_paragraphs example_rng 0 ?ps = Inr ((train, dev), 2)"
    and t: "train = map ((!) ?ps) (filter (\<lambda>i. i \<in> set [5, 4, 3, 2]) [5, 4, 3, 2, 1, 0])"
    and v: "dev = map ((!) ?ps) (filter (\<lambda>i. i \<notin> set [5, 4, 3, 2]) [5, 4, 3, 2, 1, 0])"
    and l: "length train = nat \<lfloor>0.8 * real (length ?ps)\<rfloor>"
    and j: "distinct ?ps \<longrightarrow> set train \<inter> set dev = {}"
    by blast
  from t have t': "train = [15, 14, 13, 12]" by simp
  from v have v': "dev = [11, 10]" by simp
  from h1 h2 h3 h4 h5 h6 r l j d show ?thesis unfolding t' v' by blast
qed

section \<open>The split is determined by the seed and the length of the input\<close>

lemma split_loop_map:
  "split_loop (map f ps) ti perm (map f tr) (map f dv) =
     map_sum id (map_prod (map f) (map f)) (split_loop ps ti perm tr dv)"
proof (induction perm arbitrary: tr dv)
  case Nil
  show ?case by simp
next
  case (Cons i rest)
  show ?case
    using Cons.IH [of "tr @ [ps ! i]" dv] Cons.IH [of tr "dv @ [ps ! i]"] by simp
qed

lemma split_paragraphs_map:
  "split_paragraphs R g (map f ps) =
     map_sum id (map_prod (map_prod (map f) (map f)) id) (split_paragraphs R g ps)"
proof -
  obtain ti g1 where c: "choice R g (length ps) (train_size_of (length ps)) = (ti, g1)"
    by (cases "choice R g (length ps) (train_size_of (length ps))")
  obtain perm g2 where p: "permutation R g1 (length ps) = (perm, g2)"
    by (cases "permutation R g1 (length ps)")
  show ?thesis
    using split_loop_map [of f ps ti perm "[]" "[]"] c p
    by (cases "split_loop ps ti perm [] []") (auto simp: split_paragraphs_def)
qed

text \<open>
  C7.  The generator is a function of its state, and a run starts from the state of the
  fixed seed; so two runs on the same input return the same split.  More than that, the
  split of a list is the split of its positions \<open>0..N-1\<close> with each position replaced
  by its paragraph: the assignment, and the order within train and dev, depend on the
  seed and the length of the input only.
\<close>

theorem split_depends_on_seed_and_length:
  "split_paragraphs R (seed R s) ps =
     map_sum id (map_prod (map_prod (map ((!) ps)) (map ((!) ps))) id)
       (split_paragraphs R (seed R s) [0..<length ps])"
  using split_paragraphs_map [of R "seed R s" "(!) ps" "[0..<length ps]"]
  by (simp add: map_nth)

end
